theory Spec2Isabelle
  imports Complex_Main "HOL-Library.Log_Nat" "HOL-Library.Word" "HOL-Library.Sublist"
begin

section \<open>Go's float64\<close>

text \<open>
  Every monetary value of the Go API is a \<^verbatim>\<open>float64\<close> (\<^verbatim>\<open>Product.Price\<close>,
  \<^verbatim>\<open>Order.TotalAmount\<close>, \<^verbatim>\<open>OrderItem.Price\<close>, \<^verbatim>\<open>CreateOrderResponse.Total\<close>, and the
  locals \<^verbatim>\<open>price\<close> and \<^verbatim>\<open>totalAmount\<close> of \<^verbatim>\<open>CreateOrder\<close>). A finite value is modelled
  by the rational number it denotes; the two zeros are identified (they compare equal in
  Go). Every operation computes the exact rational result and rounds it to the nearest
  value with a 53 bit significand, ties to even, with gradual underflow below
  \<open>2\<^sup>-\<^sup>1\<^sup>0\<^sup>2\<^sup>2\<close> and overflow to infinity above the largest finite value. A product and
  the sum it goes into are rounded one after the other, as the amd64 compiler does it (Go
  allows a compiler to fuse the two into one rounding).
\<close>

datatype float64 = Finite rat | PosInf | NegInf | NaN

definition pow2 :: "int \<Rightarrow> rat" where
  "pow2 e = (if 0 \<le> e then 2 ^ nat e else 1 / 2 ^ nat (- e))"

text \<open>\<open>ilog2 a\<close> is the binary exponent of a positive rational: \<open>2\<^sup>e \<le> a < 2\<^sup>e\<^sup>+\<^sup>1\<close>.\<close>

definition ilog2 :: "rat \<Rightarrow> int" where
  "ilog2 a = (case quotient_of a of (p, q) \<Rightarrow>
     let d = bitlen p - bitlen q in
     if pow2 d \<le> a then d else d - 1)"

definition round_half_even :: "rat \<Rightarrow> int" where
  "round_half_even x = (let f = \<lfloor>x\<rfloor>; r = x - of_int f in
     if r < 1 / 2 then f else if 1 / 2 < r then f + 1
     else if even f then f else f + 1)"

text \<open>
  Rounding a rational to binary64. \<open>u\<close> is the unit in the last place of the binade of
  \<open>\<bar>r\<bar>\<close> (of the subnormal range below \<open>2\<^sup>-\<^sup>1\<^sup>0\<^sup>2\<^sup>2\<close>), \<open>n\<close> the rounded significand; when the
  significand carries out of its 53 bits the exponent grows by one, and the result
  overflows when that exponent exceeds 1023.
\<close>

definition f64_round :: "rat \<Rightarrow> float64" where
  "f64_round r = (if r = 0 then Finite 0 else
     let a = \<bar>r\<bar>;
         e = max (ilog2 a) (- 1022);
         u = pow2 (e - 52);
         n = round_half_even (a / u);
         e' = (if n = 2 ^ 53 then e + 1 else e)
     in if 1023 < e' then (if 0 < r then PosInf else NegInf)
        else Finite (sgn r * (of_int n * u)))"

fun f64_add :: "float64 \<Rightarrow> float64 \<Rightarrow> float64" where
  "f64_add (Finite a) (Finite b) = f64_round (a + b)"
| "f64_add NaN _ = NaN"
| "f64_add _ NaN = NaN"
| "f64_add PosInf NegInf = NaN"
| "f64_add NegInf PosInf = NaN"
| "f64_add PosInf _ = PosInf"
| "f64_add NegInf _ = NegInf"
| "f64_add _ PosInf = PosInf"
| "f64_add _ NegInf = NegInf"

fun f64_scale_inf :: "bool \<Rightarrow> rat \<Rightarrow> float64" where
  "f64_scale_inf positive b =
     (if b = 0 then NaN else if (0 < b) = positive then PosInf else NegInf)"

fun f64_mul :: "float64 \<Rightarrow> float64 \<Rightarrow> float64" where
  "f64_mul (Finite a) (Finite b) = f64_round (a * b)"
| "f64_mul NaN _ = NaN"
| "f64_mul _ NaN = NaN"
| "f64_mul PosInf (Finite b) = f64_scale_inf True b"
| "f64_mul NegInf (Finite b) = f64_scale_inf False b"
| "f64_mul (Finite a) PosInf = f64_scale_inf True a"
| "f64_mul (Finite a) NegInf = f64_scale_inf False a"
| "f64_mul PosInf PosInf = PosInf"
| "f64_mul NegInf NegInf = PosInf"
| "f64_mul PosInf NegInf = NegInf"
| "f64_mul NegInf PosInf = NegInf"

text \<open>The conversion \<^verbatim>\<open>float64(item.Qty)\<close> of a Go \<^verbatim>\<open>int\<close>.\<close>

definition f64_of_int :: "int \<Rightarrow> float64" where
  "f64_of_int i = f64_round (of_int i)"

text \<open>
  The finite binary64 values: a significand of at most 53 bits and an exponent between
  -1074 and 971.
\<close>

definition binary64 :: "rat \<Rightarrow> bool" where
  "binary64 r = (\<exists>m e. \<bar>m\<bar> < 2 ^ 53 \<and> - 1074 \<le> e \<and> e \<le> 971 \<and> r = of_int m * pow2 e)"

fun is_float64 :: "float64 \<Rightarrow> bool" where
  "is_float64 (Finite r) = binary64 r"
| "is_float64 _ = True"


text \<open>
  \<^verbatim>\<open>totalAmount\<close> starts at the zero value and grows by \<^verbatim>\<open>+=\<close>: a float64 sum is the
  accumulation from the left.
\<close>

definition f64_sum :: "float64 list \<Rightarrow> float64" where
  "f64_sum xs = foldl f64_add (Finite 0) xs"

section \<open>The domain types (internal/domain)\<close>

type_synonym uuid = "128 word"

text \<open>A \<^verbatim>\<open>time.Time\<close>, as nanoseconds; only the order of two times matters here.\<close>

type_synonym time = int

record Product =
  p_ID :: uuid
  p_Title :: string
  p_Price :: float64
  p_Category :: string
  p_Image :: string
  p_Description :: string
  p_StockQuantity :: int
  p_CreatedAt :: time
  p_UpdatedAt :: time

record ProductFilter =
  Query :: string
  Category :: string
  Limit :: int
  Offset :: int



record OrderItemRequest =
  ProductID :: uuid
  Qty :: int

record CreateOrderRequest =
  Items :: "OrderItemRequest list"

record CreateOrderResponse =
  OrderID :: uuid
  Total :: float64

section \<open>The relational store\<close>

text \<open>
  The rows of the tables \<^verbatim>\<open>orders\<close> and \<^verbatim>\<open>order_items\<close>, with the columns the INSERT
  statements of \<^verbatim>\<open>CreateOrder\<close> name. A row of \<^verbatim>\<open>products\<close> has the nine columns that
  \<^verbatim>\<open>GetProducts\<close> scans into a \<^verbatim>\<open>Product\<close>, so the table is a list of \<^verbatim>\<open>Product\<close>.
  Values are held as the Go code sends and scans them.
\<close>

record order_row =
  ord_id :: uuid
  ord_user_id :: uuid
  ord_total_amount :: float64
  ord_status :: string
  ord_created_at :: time
  ord_updated_at :: time

record order_item_row =
  itm_id :: uuid
  itm_order_id :: uuid
  itm_product_id :: uuid
  itm_quantity :: int
  itm_price :: float64
  itm_created_at :: time

text \<open>
  A snapshot of the committed store, as one statement sees it. \<open>up\<close> tells whether the
  store executes the statement at all: when it is false the driver call returns an error
  (connection loss, timeout, cancelled context, a refused statement).
\<close>

record store =
  up :: bool
  products :: "Product list"
  orders :: "order_row list"
  order_items :: "order_item_row list"

text \<open>
  \<^verbatim>\<open>sql.ErrNoRows\<close>, any other error of the store layer, and the error that
  \<^verbatim>\<open>GetProduct\<close> makes with \<^verbatim>\<open>errors.New("product not found")\<close>.
\<close>

datatype error = ErrNoRows | ErrStore | ErrProductNotFound

text \<open>
  \<^verbatim>\<open>BeginTx(ctx, nil)\<close> opens a transaction at the store's default isolation level, read
  committed: each statement of the transaction sees the store as committed when the
  statement starts, together with the transaction's own writes. A \<open>world\<close> gives the
  committed store that the \<open>k\<close>-th statement of one call sees (\<open>k = 0\<close> is BeginTx);
  \<open>\<lambda>_. db\<close> is a store that nobody else changes during the call.
\<close>

type_synonym world = "nat \<Rightarrow> store"

text \<open>The transaction handle: the number of its next statement and its uncommitted rows.\<close>

record tx =
  stmt :: nat
  tx_orders :: "order_row list"
  tx_items :: "order_item_row list"

text \<open>The rows a call has made durable: both lists are empty after a rollback.\<close>

type_synonym written = "order_row list \<times> order_item_row list"

definition rolled_back :: written where
  "rolled_back = ([], [])"


definition BeginTx :: "world \<Rightarrow> error + tx" where
  "BeginTx w = (if up (w 0) then Inr \<lparr>stmt = 1, tx_orders = [], tx_items = []\<rparr> else Inl ErrStore)"

definition next_stmt :: "tx \<Rightarrow> tx" where
  "next_stmt t = t\<lparr>stmt := Suc (stmt t)\<rparr>"

text \<open>\<^verbatim>\<open>SELECT price FROM products WHERE id = $1\<close>, scanned by \<^verbatim>\<open>QueryRow(...).Scan(&price)\<close>.\<close>

definition select_price :: "store \<Rightarrow> uuid \<Rightarrow> error + float64" where
  "select_price s pid =
     (if \<not> up s then Inl ErrStore
      else case filter (\<lambda>p. p_ID p = pid) (products s) of
             [] \<Rightarrow> Inl ErrNoRows
           | p # _ \<Rightarrow> Inr (p_Price p))"

definition tx_select_price :: "world \<Rightarrow> tx \<Rightarrow> uuid \<Rightarrow> (error + float64) \<times> tx" where
  "tx_select_price w t pid = (select_price (w (stmt t)) pid, next_stmt t)"

definition tx_insert_order :: "world \<Rightarrow> tx \<Rightarrow> order_row \<Rightarrow> error option \<times> tx" where
  "tx_insert_order w t row =
     (if up (w (stmt t)) then (None, (next_stmt t)\<lparr>tx_orders := tx_orders t @ [row]\<rparr>)
      else (Some ErrStore, next_stmt t))"

definition tx_insert_item :: "world \<Rightarrow> tx \<Rightarrow> order_item_row \<Rightarrow> error option \<times> tx" where
  "tx_insert_item w t row =
     (if up (w (stmt t)) then (None, (next_stmt t)\<lparr>tx_items := tx_items t @ [row]\<rparr>)
      else (Some ErrStore, next_stmt t))"

definition tx_Commit :: "world \<Rightarrow> tx \<Rightarrow> error option \<times> written" where
  "tx_Commit w t =
     (if up (w (stmt t)) then (None, (tx_orders t, tx_items t)) else (Some ErrStore, rolled_back))"

section \<open>OrderService (internal/service/order_service.go)\<close>

text \<open>The first loop of \<^verbatim>\<open>CreateOrder\<close>: one price lookup per item, accumulating the total.\<close>

fun price_loop :: "world \<Rightarrow> tx \<Rightarrow> OrderItemRequest list \<Rightarrow> float64 \<Rightarrow> (error + float64) \<times> tx" where
  "price_loop w t [] totalAmount = (Inr totalAmount, t)"
| "price_loop w t (item # rest) totalAmount =
     (case tx_select_price w t (ProductID item) of
        (Inl err, t') \<Rightarrow> (Inl err, t')
      | (Inr price, t') \<Rightarrow>
          price_loop w t' rest (f64_add totalAmount (f64_mul price (f64_of_int (Qty item)))))"

text \<open>
  The second loop: for every item the price is selected again, then the row is inserted.
  \<open>gen\<close> is the sequence of identifiers that \<^verbatim>\<open>uuid.New()\<close> returns during the call and
  \<open>i\<close> the number of identifiers drawn so far.
\<close>

fun item_loop ::
  "world \<Rightarrow> tx \<Rightarrow> uuid \<Rightarrow> time \<Rightarrow> (nat \<Rightarrow> uuid) \<Rightarrow> nat \<Rightarrow> OrderItemRequest list \<Rightarrow> error option \<times> tx" where
  "item_loop w t orderID now gen i [] = (None, t)"
| "item_loop w t orderID now gen i (item # rest) =
     (case tx_select_price w t (ProductID item) of
        (Inl err, t') \<Rightarrow> (Some err, t')
      | (Inr price, t') \<Rightarrow>
          (case tx_insert_item w t'
                  \<lparr>itm_id = gen i, itm_order_id = orderID, itm_product_id = ProductID item,
                   itm_quantity = Qty item, itm_price = price, itm_created_at = now\<rparr> of
             (Some err, t'') \<Rightarrow> (Some err, t'')
           | (None, t'') \<Rightarrow> item_loop w t'' orderID now gen (Suc i) rest))"

text \<open>
  \<^verbatim>\<open>CreateOrder\<close>. Every early return runs the deferred \<^verbatim>\<open>tx.Rollback()\<close>, so nothing is
  written; after a successful commit the deferred rollback does nothing. The result is the
  Go result together with the rows the call has made durable.
\<close>

definition CreateOrder ::
  "world \<Rightarrow> uuid \<Rightarrow> CreateOrderRequest \<Rightarrow> (nat \<Rightarrow> uuid) \<Rightarrow> time
     \<Rightarrow> (error + CreateOrderResponse) \<times> written" where
  "CreateOrder w userID req gen now =
     (case BeginTx w of
        Inl err \<Rightarrow> (Inl err, rolled_back)
      | Inr t0 \<Rightarrow>
          let orderID = gen 0 in
          (case price_loop w t0 (Items req) (Finite 0) of
             (Inl err, _) \<Rightarrow> (Inl err, rolled_back)
           | (Inr totalAmount, t1) \<Rightarrow>
               (case tx_insert_order w t1
                       \<lparr>ord_id = orderID, ord_user_id = userID, ord_total_amount = totalAmount,
                        ord_status = ''pending'', ord_created_at = now, ord_updated_at = now\<rparr> of
                  (Some err, _) \<Rightarrow> (Inl err, rolled_back)
                | (None, t2) \<Rightarrow>
                    (case item_loop w t2 orderID now gen 1 (Items req) of
                       (Some err, _) \<Rightarrow> (Inl err, rolled_back)
                     | (None, t3) \<Rightarrow>
                         (case tx_Commit w t3 of
                            (Some err, _) \<Rightarrow> (Inl err, rolled_back)
                          | (None, rows) \<Rightarrow>
                              (Inr \<lparr>OrderID = orderID, Total = totalAmount\<rparr>, rows))))))"




text \<open>
  \<^verbatim>\<open>ORDER BY created_at DESC\<close>: a sort on the negated time. SQL leaves the order of rows of
  equal time open; here they keep their table order.
\<close>

definition order_by_desc :: "('a \<Rightarrow> time) \<Rightarrow> 'a list \<Rightarrow> 'a list" where
  "order_by_desc created xs = sort_key (\<lambda>x. - created x) xs"




section \<open>ProductService\<close>

text \<open>
  PostgreSQL's \<^verbatim>\<open>LIKE\<close>, pattern first: \<^verbatim>\<open>%\<close> matches any sequence of characters, \<^verbatim>\<open>_\<close>
  any single character, and a backslash makes the character after it match itself. (A
  pattern that ends in a lone backslash is refused by PostgreSQL; \<^verbatim>\<open>GetProducts\<close> never
  sends one, since its pattern ends in \<^verbatim>\<open>%\<close>; here it matches nothing.) \<^verbatim>\<open>ILIKE\<close> compares
  without regard to case. A string is a list of characters of one byte each, and letters
  are folded in ASCII.
\<close>

fun like_match :: "string \<Rightarrow> string \<Rightarrow> bool" where
  "like_match [] s = (s = [])"
| "like_match (c # p) [] = (c = CHR ''%'' \<and> like_match p [])"
| "like_match (c # p) (x # s) =
     (if c = CHR ''%'' then like_match p (x # s) \<or> like_match (c # p) s
      else if c = CHR ''_'' then like_match p s
      else if c = CHR 0x5C then (case p of [] \<Rightarrow> False | e # p' \<Rightarrow> x = e \<and> like_match p' s)
      else x = c \<and> like_match p s)"

definition to_lower :: "char \<Rightarrow> char" where
  "to_lower c = (let n = of_char c :: nat in if 65 \<le> n \<and> n \<le> 90 then char_of (n + 32) else c)"

definition ilike :: "string \<Rightarrow> string \<Rightarrow> bool" where
  "ilike s pattern = like_match (map to_lower pattern) (map to_lower s)"

text \<open>
  The WHERE clauses that \<^verbatim>\<open>GetProducts\<close> collects, each with its argument, and what a clause
  selects.
\<close>

datatype clause = TitleOrDescriptionILike string | CategoryEq string

fun holds :: "clause \<Rightarrow> Product \<Rightarrow> bool" where
  "holds (TitleOrDescriptionILike pattern) p =
     (ilike (p_Title p) pattern \<or> ilike (p_Description p) pattern)"
| "holds (CategoryEq c) p = (p_Category p = c)"

definition whereClauses :: "ProductFilter \<Rightarrow> clause list" where
  "whereClauses flt =
     (if Query flt \<noteq> [] then [TitleOrDescriptionILike (''%'' @ Query flt @ ''%'')] else []) @
     (if Category flt \<noteq> [] then [CategoryEq (Category flt)] else [])"

text \<open>\<^verbatim>\<open>LIMIT\<close> and \<^verbatim>\<open>OFFSET\<close> are added to the query only when the field is positive.\<close>

definition page :: "ProductFilter \<Rightarrow> 'a list \<Rightarrow> 'a list" where
  "page flt rows =
     (let rows1 = (if 0 < Offset flt then drop (nat (Offset flt)) rows else rows)
      in if 0 < Limit flt then take (nat (Limit flt)) rows1 else rows1)"

definition GetProducts :: "store \<Rightarrow> ProductFilter \<Rightarrow> error + Product list" where
  "GetProducts db flt =
     (if \<not> up db then Inl ErrStore
      else Inr (page flt (order_by_desc p_CreatedAt
                  (filter (\<lambda>p. list_all (\<lambda>c. holds c p) (whereClauses flt)) (products db)))))"

text \<open>
  \<^verbatim>\<open>GetProduct\<close>: whatever error \<^verbatim>\<open>QueryRow(...).Scan\<close> returns, the function returns
  \<^verbatim>\<open>errors.New("product not found")\<close>.
\<close>

definition select_product :: "store \<Rightarrow> uuid \<Rightarrow> error + Product" where
  "select_product db pid =
     (if \<not> up db then Inl ErrStore
      else case filter (\<lambda>p. p_ID p = pid) (products db) of
             [] \<Rightarrow> Inl ErrNoRows
           | p # _ \<Rightarrow> Inr p)"

definition GetProduct :: "store \<Rightarrow> uuid \<Rightarrow> error + Product" where
  "GetProduct db pid =
     (case select_product db pid of
        Inl err \<Rightarrow> Inl ErrProductNotFound
      | Inr product \<Rightarrow> Inr product)"

text \<open>
  \<^verbatim>\<open>ProductHandler.GetProduct\<close> maps the service's error to a status: 404 when the message
  is \<^verbatim>\<open>product not found\<close>, 500 otherwise.
\<close>

definition GetProduct_status :: "store \<Rightarrow> uuid \<Rightarrow> nat" where
  "GetProduct_status db pid =
     (case GetProduct db pid of
        Inl err \<Rightarrow> (if err = ErrProductNotFound then 404 else 500)
      | Inr product \<Rightarrow> 200)"

section \<open>Vocabulary of the properties\<close>

text \<open>
  The order item rows that belong to a list of unit prices and the requested items: one row
  per pair, with the identifiers \<open>gen i\<close>, \<open>gen (i + 1)\<close>, ...
\<close>

fun item_rows ::
  "uuid \<Rightarrow> time \<Rightarrow> (nat \<Rightarrow> uuid) \<Rightarrow> nat \<Rightarrow> float64 list \<Rightarrow> OrderItemRequest list \<Rightarrow> order_item_row list" where
  "item_rows orderID now gen i (price # prices) (item # rest) =
     \<lparr>itm_id = gen i, itm_order_id = orderID, itm_product_id = ProductID item,
      itm_quantity = Qty item, itm_price = price, itm_created_at = now\<rparr>
     # item_rows orderID now gen (Suc i) prices rest"
| "item_rows orderID now gen i _ _ = []"

text \<open>
  The spec's words for \<^verbatim>\<open>listProducts\<close>: a text contains the search text
  case-insensitively when the folded search text is a contiguous part of the folded text;
  a present search text restricts to products whose title or description contains it, a
  present category to products of exactly that category, and both compose with AND. A
  field of the filter is present when it is not the empty string.
\<close>

definition contains_ci :: "string \<Rightarrow> string \<Rightarrow> bool" where
  "contains_ci s q = sublist (map to_lower q) (map to_lower s)"



text \<open>
  A text that the pattern \<^verbatim>\<open>%q%\<close> matches, made from the search text \<open>q\<close> itself: a \<^verbatim>\<open>%\<close>
  is left out, a \<^verbatim>\<open>_\<close> becomes an x, and a backslash gives way to the character it
  escapes (at the end of \<open>q\<close> that is the closing \<^verbatim>\<open>%\<close> of the pattern).
\<close>

fun matched_text :: "string \<Rightarrow> string" where
  "matched_text [] = []"
| "matched_text (c # q) =
     (if c = CHR ''%'' then matched_text q
      else if c = CHR ''_'' then CHR ''x'' # matched_text q
      else if c = CHR 0x5C then (case q of [] \<Rightarrow> ''%'' | e # q' \<Rightarrow> e # matched_text q')
      else c # matched_text q)"

text \<open>A store whose only product has the given title and description.\<close>

definition one_product :: "string \<Rightarrow> store" where
  "one_product title =
     \<lparr>up = True,
      products = [\<lparr>p_ID = 1, p_Title = title, p_Price = Finite 1, p_Category = ''misc'',
                   p_Image = [], p_Description = title, p_StockQuantity = 1,
                   p_CreatedAt = 0, p_UpdatedAt = 0\<rparr>],
      orders = [], order_items = []\<rparr>"



text \<open>Most recent first.\<close>

definition newest_first :: "('a \<Rightarrow> time) \<Rightarrow> 'a list \<Rightarrow> bool" where
  "newest_first created xs = sorted_wrt (\<lambda>a b. created b \<le> created a) xs"

text \<open>The unit price of a product in a snapshot of the store, when the product exists.\<close>

definition price_in :: "store \<Rightarrow> uuid \<Rightarrow> float64 option" where
  "price_in s pid =
     (case filter (\<lambda>p. p_ID p = pid) (products s) of [] \<Rightarrow> None | p # _ \<Rightarrow> Some (p_Price p))"

section \<open>A small shop\<close>

text \<open>
  The catalogue of the spec's examples: Salmon Treats (food) at 10.00 and Feather Wand
  (toys) at 5.00, and a store without orders.
\<close>

definition salmon :: Product where
  "salmon = \<lparr>p_ID = 1, p_Title = ''Salmon Treats'', p_Price = Finite 10, p_Category = ''food'',
     p_Image = ''salmon.png'', p_Description = ''Crunchy bites'', p_StockQuantity = 5,
     p_CreatedAt = 100, p_UpdatedAt = 100\<rparr>"

definition wand :: Product where
  "wand = \<lparr>p_ID = 2, p_Title = ''Feather Wand'', p_Price = Finite 5, p_Category = ''toys'',
     p_Image = ''wand.png'', p_Description = ''Keeps a cat busy'', p_StockQuantity = 3,
     p_CreatedAt = 200, p_UpdatedAt = 200\<rparr>"

definition shop :: store where
  "shop = \<lparr>up = True, products = [salmon, wand], orders = [], order_items = []\<rparr>"

text \<open>The identifiers that \<^verbatim>\<open>uuid.New()\<close> returns in the examples: 100, 101, 102, ...\<close>

definition ids :: "nat \<Rightarrow> uuid" where
  "ids i = 100 + of_nat i"









section \<open>The transaction of CreateOrder\<close>

lemma stmt_next [simp]: "stmt (next_stmt t) = Suc (stmt t)"
  and tx_orders_next [simp]: "tx_orders (next_stmt t) = tx_orders t"
  and tx_items_next [simp]: "tx_items (next_stmt t) = tx_items t"
  by (simp_all add: next_stmt_def)

lemma price_loop_Inr:
  "price_loop w t items a = (Inr tot, t') \<longleftrightarrow>
     (\<exists>prices. length prices = length items \<and>
        (\<forall>i<length items. select_price (w (stmt t + i)) (ProductID (items ! i)) = Inr (prices ! i)) \<and>
        tot = foldl f64_add a (map2 (\<lambda>price item. f64_mul price (f64_of_int (Qty item))) prices items) \<and>
        t' = t\<lparr>stmt := stmt t + length items\<rparr>)"
proof (induction items arbitrary: t a)
  case Nil
  then show ?case by auto
next
  case (Cons item rest)
  show ?case
  proof (cases "select_price (w (stmt t)) (ProductID item)")
    case (Inl err)
    then show ?thesis
      by (auto simp: tx_select_price_def)
  next
    case (Inr price)
    have step: "price_loop w t (item # rest) a =
        price_loop w (next_stmt t) rest (f64_add a (f64_mul price (f64_of_int (Qty item))))"
      using Inr by (simp add: tx_select_price_def)
    show ?thesis
    proof
      assume "price_loop w t (item # rest) a = (Inr tot, t')"
      then obtain ps where ps: "length ps = length rest"
          "\<forall>i<length rest. select_price (w (Suc (stmt t) + i)) (ProductID (rest ! i)) = Inr (ps ! i)"
          "tot = foldl f64_add (f64_add a (f64_mul price (f64_of_int (Qty item))))
                   (map2 (\<lambda>price item. f64_mul price (f64_of_int (Qty item))) ps rest)"
          "t' = (next_stmt t)\<lparr>stmt := Suc (stmt t) + length rest\<rparr>"
        unfolding step Cons.IH by auto
      have "\<forall>i<length (item # rest).
              select_price (w (stmt t + i)) (ProductID ((item # rest) ! i)) = Inr ((price # ps) ! i)"
        using ps(2) Inr by (auto simp: less_Suc_eq_0_disj)
      then show "\<exists>prices. length prices = length (item # rest) \<and>
        (\<forall>i<length (item # rest). select_price (w (stmt t + i)) (ProductID ((item # rest) ! i)) = Inr (prices ! i)) \<and>
        tot = foldl f64_add a (map2 (\<lambda>price item. f64_mul price (f64_of_int (Qty item))) prices (item # rest)) \<and>
        t' = t\<lparr>stmt := stmt t + length (item # rest)\<rparr>"
        using ps(1,3,4) by (intro exI[of _ "price # ps"]) (simp add: next_stmt_def)
    next
      assume "\<exists>prices. length prices = length (item # rest) \<and>
        (\<forall>i<length (item # rest). select_price (w (stmt t + i)) (ProductID ((item # rest) ! i)) = Inr (prices ! i)) \<and>
        tot = foldl f64_add a (map2 (\<lambda>price item. f64_mul price (f64_of_int (Qty item))) prices (item # rest)) \<and>
        t' = t\<lparr>stmt := stmt t + length (item # rest)\<rparr>"
      then obtain prices where pr: "length prices = length (item # rest)"
        "\<forall>i<length (item # rest). select_price (w (stmt t + i)) (ProductID ((item # rest) ! i)) = Inr (prices ! i)"
        "tot = foldl f64_add a (map2 (\<lambda>price item. f64_mul price (f64_of_int (Qty item))) prices (item # rest))"
        "t' = t\<lparr>stmt := stmt t + length (item # rest)\<rparr>" by blast
      from pr(1) obtain p ps where pps: "prices = p # ps" "length ps = length rest"
        by (cases prices) auto
      from pr(2) have "select_price (w (stmt t + 0)) (ProductID ((item # rest) ! 0)) = Inr (prices ! 0)"
        by blast
      with Inr pps have p: "p = price" by simp
      have tl: "\<forall>i<length rest. select_price (w (Suc (stmt t) + i)) (ProductID (rest ! i)) = Inr (ps ! i)"
      proof (intro allI impI)
        fix i assume "i < length rest"
        then have "Suc i < length (item # rest)" by simp
        from pr(2)[rule_format, OF this] show "select_price (w (Suc (stmt t) + i)) (ProductID (rest ! i)) = Inr (ps ! i)"
          using pps by simp
      qed
      show "price_loop w t (item # rest) a = (Inr tot, t')"
        unfolding step Cons.IH
        using pps(2) tl pr(3,4) p pps(1)
        by (intro exI[of _ ps]) (simp add: next_stmt_def)
    qed
  qed
qed



lemma item_loop_None:
  "item_loop w t orderID now gen j items = (None, t') \<longleftrightarrow>
     (\<exists>prices. length prices = length items \<and>
        (\<forall>i<length items.
            select_price (w (stmt t + 2 * i)) (ProductID (items ! i)) = Inr (prices ! i) \<and>
            up (w (Suc (stmt t + 2 * i)))) \<and>
        t' = t\<lparr>stmt := stmt t + 2 * length items,
               tx_items := tx_items t @ item_rows orderID now gen j prices items\<rparr>)"
proof (induction items arbitrary: t j)
  case Nil
  then show ?case by auto
next
  case (Cons item rest)
  let ?P = "\<lambda>prices. length prices = length (item # rest) \<and>
        (\<forall>i<length (item # rest).
            select_price (w (stmt t + 2 * i)) (ProductID ((item # rest) ! i)) = Inr (prices ! i) \<and>
            up (w (Suc (stmt t + 2 * i)))) \<and>
        t' = t\<lparr>stmt := stmt t + 2 * length (item # rest),
               tx_items := tx_items t @ item_rows orderID now gen j prices (item # rest)\<rparr>"
  show ?case
  proof (cases "select_price (w (stmt t)) (ProductID item)")
    case (Inl err)
    have "\<not> ?P prices" for prices
    proof
      assume "?P prices"
      then have "select_price (w (stmt t + 2 * 0)) (ProductID ((item # rest) ! 0)) = Inr (prices ! 0)"
        by (metis length_Cons zero_less_Suc)
      with Inl show False by simp
    qed
    with Inl show ?thesis
      by (auto simp: tx_select_price_def)
  next
    case (Inr price)
    show ?thesis
    proof (cases "up (w (Suc (stmt t)))")
      case False
      have "\<not> ?P prices" for prices
      proof
        assume "?P prices"
        then have "up (w (Suc (stmt t + 2 * 0)))"
          by (metis length_Cons zero_less_Suc)
        with False show False by simp
      qed
      with Inr False show ?thesis
        by (auto simp: tx_select_price_def tx_insert_item_def)
    next
      case True
      let ?row = "\<lparr>itm_id = gen j, itm_order_id = orderID, itm_product_id = ProductID item,
                   itm_quantity = Qty item, itm_price = price, itm_created_at = now\<rparr>"
      let ?t2 = "(next_stmt (next_stmt t))\<lparr>tx_items := tx_items t @ [?row]\<rparr>"
      have step: "item_loop w t orderID now gen j (item # rest) =
          item_loop w ?t2 orderID now gen (Suc j) rest"
        using Inr True by (simp add: tx_select_price_def tx_insert_item_def)
      have st: "stmt ?t2 = Suc (Suc (stmt t))" "tx_items ?t2 = tx_items t @ [?row]"
        by simp_all
      show ?thesis
      proof
        assume "item_loop w t orderID now gen j (item # rest) = (None, t')"
        then obtain ps where ps: "length ps = length rest"
          "\<forall>i<length rest.
            select_price (w (stmt ?t2 + 2 * i)) (ProductID (rest ! i)) = Inr (ps ! i) \<and>
            up (w (Suc (stmt ?t2 + 2 * i)))"
          "t' = ?t2\<lparr>stmt := stmt ?t2 + 2 * length rest,
               tx_items := tx_items ?t2 @ item_rows orderID now gen (Suc j) ps rest\<rparr>"
          unfolding step Cons.IH by blast
        have "\<forall>i<length (item # rest).
            select_price (w (stmt t + 2 * i)) (ProductID ((item # rest) ! i)) = Inr ((price # ps) ! i) \<and>
            up (w (Suc (stmt t + 2 * i)))"
          using ps(2) Inr True unfolding st by (auto simp: less_Suc_eq_0_disj)
        moreover have "t' = t\<lparr>stmt := stmt t + 2 * length (item # rest),
               tx_items := tx_items t @ item_rows orderID now gen j (price # ps) (item # rest)\<rparr>"
          unfolding ps(3) st by (simp add: next_stmt_def)
        ultimately have "?P (price # ps)" using ps(1) by simp
        then show "\<exists>prices. ?P prices" ..
      next
        assume "\<exists>prices. ?P prices"
        then obtain prices where pr: "?P prices" ..
        then obtain p ps where pps: "prices = p # ps" "length ps = length rest"
          by (cases prices) auto
        from pr have "select_price (w (stmt t + 2 * 0)) (ProductID ((item # rest) ! 0)) = Inr (prices ! 0)"
          by (metis length_Cons zero_less_Suc)
        with Inr pps have p: "p = price" by simp
        have tl: "\<forall>i<length rest.
            select_price (w (stmt ?t2 + 2 * i)) (ProductID (rest ! i)) = Inr (ps ! i) \<and>
            up (w (Suc (stmt ?t2 + 2 * i)))"
        proof (intro allI impI)
          fix i assume "i < length rest"
          then have "Suc i < length (item # rest)" by simp
          with pr have "select_price (w (stmt t + 2 * Suc i)) (ProductID ((item # rest) ! Suc i)) = Inr (prices ! Suc i) \<and>
            up (w (Suc (stmt t + 2 * Suc i)))" by blast
          then show "select_price (w (stmt ?t2 + 2 * i)) (ProductID (rest ! i)) = Inr (ps ! i) \<and>
            up (w (Suc (stmt ?t2 + 2 * i)))"
            unfolding st using pps by simp
        qed
        have "t' = ?t2\<lparr>stmt := stmt ?t2 + 2 * length rest,
               tx_items := tx_items ?t2 @ item_rows orderID now gen (Suc j) ps rest\<rparr>"
          using pr pps p unfolding st by (simp add: next_stmt_def)
        with tl pps(2) show "item_loop w t orderID now gen j (item # rest) = (None, t')"
          unfolding step Cons.IH by blast
      qed
    qed
  qed
qed


lemma CreateOrder_Inl:
  "fst (CreateOrder w userID req gen now) = Inl e \<Longrightarrow>
     snd (CreateOrder w userID req gen now) = rolled_back"
  by (auto simp: CreateOrder_def Let_def split: sum.splits prod.splits option.splits)

lemma CreateOrder_Inr:
  "CreateOrder w userID req gen now = (Inr resp, rows) \<longleftrightarrow>
     (\<exists>prices prices2.
        length prices = length (Items req) \<and> length prices2 = length (Items req) \<and>
        up (w 0) \<and>
        (\<forall>i<length (Items req).
            select_price (w (Suc i)) (ProductID (Items req ! i)) = Inr (prices ! i)) \<and>
        up (w (Suc (length (Items req)))) \<and>
        (\<forall>i<length (Items req).
            select_price (w (length (Items req) + 2 + 2 * i)) (ProductID (Items req ! i)) = Inr (prices2 ! i) \<and>
            up (w (length (Items req) + 3 + 2 * i))) \<and>
        up (w (3 * length (Items req) + 2)) \<and>
        resp = \<lparr>OrderID = gen 0,
                 Total = f64_sum (map2 (\<lambda>price item. f64_mul price (f64_of_int (Qty item))) prices (Items req))\<rparr> \<and>
        rows = ([\<lparr>ord_id = gen 0, ord_user_id = userID,
                   ord_total_amount = f64_sum (map2 (\<lambda>price item. f64_mul price (f64_of_int (Qty item))) prices (Items req)),
                   ord_status = ''pending'', ord_created_at = now, ord_updated_at = now\<rparr>],
                item_rows (gen 0) now gen 1 prices2 (Items req)))"
  (is "?L \<longleftrightarrow> ?R")
proof
  assume L: ?L
  let ?n = "length (Items req)"
  let ?t0 = "\<lparr>stmt = 1, tx_orders = [], tx_items = []\<rparr>"
  from L have up0: "up (w 0)"
    by (auto simp: CreateOrder_def BeginTx_def rolled_back_def split: if_splits)
  from L up0 obtain tot t1 where pl: "price_loop w ?t0 (Items req) (Finite 0) = (Inr tot, t1)"
    by (auto simp: CreateOrder_def BeginTx_def Let_def split: sum.splits prod.splits)
  then obtain prices where pr: "length prices = ?n"
      "\<forall>i<?n. select_price (w (Suc i)) (ProductID (Items req ! i)) = Inr (prices ! i)"
      "tot = f64_sum (map2 (\<lambda>price item. f64_mul price (f64_of_int (Qty item))) prices (Items req))"
      "t1 = ?t0\<lparr>stmt := 1 + ?n\<rparr>"
    unfolding price_loop_Inr f64_sum_def by auto
  let ?order = "\<lparr>ord_id = gen 0, ord_user_id = userID, ord_total_amount = tot,
                   ord_status = ''pending'', ord_created_at = now, ord_updated_at = now\<rparr>"
  from L up0 pl have up1: "up (w (stmt t1))"
    by (auto simp: CreateOrder_def BeginTx_def Let_def tx_insert_order_def split: if_splits)
  let ?t2 = "(next_stmt t1)\<lparr>tx_orders := tx_orders t1 @ [?order]\<rparr>"
  from L up0 pl up1 obtain t3 where il: "item_loop w ?t2 (gen 0) now gen 1 (Items req) = (None, t3)"
    by (auto simp: CreateOrder_def BeginTx_def Let_def tx_insert_order_def
        split: sum.splits prod.splits option.splits)
  then obtain prices2 where pr2: "length prices2 = ?n"
      "\<forall>i<?n. select_price (w (stmt ?t2 + 2 * i)) (ProductID (Items req ! i)) = Inr (prices2 ! i) \<and>
              up (w (Suc (stmt ?t2 + 2 * i)))"
      "t3 = ?t2\<lparr>stmt := stmt ?t2 + 2 * ?n,
               tx_items := tx_items ?t2 @ item_rows (gen 0) now gen 1 prices2 (Items req)\<rparr>"
    unfolding item_loop_None by blast
  from L up0 pl up1 il have fin: "up (w (stmt t3))" "resp = \<lparr>OrderID = gen 0, Total = tot\<rparr>"
      "rows = (tx_orders t3, tx_items t3)"
    by (auto simp: CreateOrder_def BeginTx_def Let_def tx_insert_order_def tx_Commit_def
        rolled_back_def split: if_splits)
  have s2: "stmt ?t2 = ?n + 2" using pr(4) by simp
  have s3: "stmt t3 = 3 * ?n + 2" using pr2(3) s2 by simp
  have "up (w (Suc ?n))" using up1 pr(4) by simp
  moreover have "\<forall>i<?n. select_price (w (?n + 2 + 2 * i)) (ProductID (Items req ! i)) = Inr (prices2 ! i) \<and>
            up (w (?n + 3 + 2 * i))"
    using pr2(2) unfolding s2 by (simp add: numeral_3_eq_3)
  moreover have "up (w (3 * ?n + 2))" using fin(1) s3 by simp
  moreover have "rows = ([?order], item_rows (gen 0) now gen 1 prices2 (Items req))"
    using fin(3) pr2(3) pr(4) by simp
  ultimately show ?R
    using pr(1,2,3) pr2(1) up0 fin(2) by blast
next
  assume ?R
  then obtain prices prices2 where R:
      "length prices = length (Items req)" "length prices2 = length (Items req)"
      "up (w 0)"
      "\<forall>i<length (Items req). select_price (w (Suc i)) (ProductID (Items req ! i)) = Inr (prices ! i)"
      "up (w (Suc (length (Items req))))"
      "\<forall>i<length (Items req).
            select_price (w (length (Items req) + 2 + 2 * i)) (ProductID (Items req ! i)) = Inr (prices2 ! i) \<and>
            up (w (length (Items req) + 3 + 2 * i))"
      "up (w (3 * length (Items req) + 2))"
      "resp = \<lparr>OrderID = gen 0,
                 Total = f64_sum (map2 (\<lambda>price item. f64_mul price (f64_of_int (Qty item))) prices (Items req))\<rparr>"
      "rows = ([\<lparr>ord_id = gen 0, ord_user_id = userID,
                   ord_total_amount = f64_sum (map2 (\<lambda>price item. f64_mul price (f64_of_int (Qty item))) prices (Items req)),
                   ord_status = ''pending'', ord_created_at = now, ord_updated_at = now\<rparr>],
                item_rows (gen 0) now gen 1 prices2 (Items req))"
    by blast
  let ?n = "length (Items req)"
  let ?tot = "f64_sum (map2 (\<lambda>price item. f64_mul price (f64_of_int (Qty item))) prices (Items req))"
  let ?t0 = "\<lparr>stmt = 1, tx_orders = [], tx_items = []\<rparr>"
  let ?t1 = "?t0\<lparr>stmt := stmt ?t0 + ?n\<rparr>"
  have pl: "price_loop w ?t0 (Items req) (Finite 0) = (Inr ?tot, ?t1)"
    unfolding price_loop_Inr f64_sum_def using R(1,4) by (intro exI[of _ prices]) simp
  let ?order = "\<lparr>ord_id = gen 0, ord_user_id = userID, ord_total_amount = ?tot,
                   ord_status = ''pending'', ord_created_at = now, ord_updated_at = now\<rparr>"
  let ?t2 = "(next_stmt ?t1)\<lparr>tx_orders := tx_orders ?t1 @ [?order]\<rparr>"
  have io: "tx_insert_order w ?t1 ?order = (None, ?t2)"
    using R(5) by (simp add: tx_insert_order_def)
  let ?t3 = "?t2\<lparr>stmt := stmt ?t2 + 2 * ?n,
               tx_items := tx_items ?t2 @ item_rows (gen 0) now gen 1 prices2 (Items req)\<rparr>"
  have s2: "stmt ?t2 = ?n + 2" by simp
  have il: "item_loop w ?t2 (gen 0) now gen 1 (Items req) = (None, ?t3)"
    unfolding item_loop_None s2 using R(2,6)
    by (intro exI[of _ prices2]) (simp add: numeral_3_eq_3)
  have cm: "tx_Commit w ?t3 = (None, rows)"
    using R(7,9) by (simp add: tx_Commit_def mult.commute)
  show ?L
    unfolding CreateOrder_def BeginTx_def Let_def using R(3,8) pl io il cm
    by simp
qed

lemma select_price_Inr:
  "select_price s pid = Inr x \<longleftrightarrow> up s \<and> price_in s pid = Some x"
  by (auto simp: select_price_def price_in_def split: list.splits)


lemma price_in_None: "price_in s pid = None \<longleftrightarrow> pid \<notin> p_ID ` set (products s)"
proof (cases "filter (\<lambda>p. p_ID p = pid) (products s)")
  case Nil
  then show ?thesis by (auto simp: price_in_def filter_empty_conv)
next
  case (Cons p ps)
  then have "p \<in> set (filter (\<lambda>p. p_ID p = pid) (products s))" by simp
  then have "p \<in> set (products s)" "p_ID p = pid" by auto
  with Cons show ?thesis by (auto simp: price_in_def)
qed



text \<open>
  In a reachable store that nobody else changes, \<^verbatim>\<open>CreateOrder\<close> succeeds when every
  requested product exists, so a failure there means that a product is unknown.
\<close>

lemma CreateOrder_quiet_succeeds:
  assumes up: "up db"
    and known: "\<forall>item\<in>set (Items req). ProductID item \<in> p_ID ` set (products db)"
  shows "\<exists>resp rows. CreateOrder (\<lambda>_. db) userID req gen now = (Inr resp, rows)"
proof -
  let ?n = "length (Items req)"
  define prices where "prices = map (\<lambda>item. the (price_in db (ProductID item))) (Items req)"
  have len: "length prices = ?n" by (simp add: prices_def)
  have sel: "\<forall>i<?n. select_price db (ProductID (Items req ! i)) = Inr (prices ! i)"
  proof (intro allI impI)
    fix i assume i: "i < ?n"
    then have "Items req ! i \<in> set (Items req)" by simp
    with known have "price_in db (ProductID (Items req ! i)) \<noteq> None"
      by (simp add: price_in_None)
    then show "select_price db (ProductID (Items req ! i)) = Inr (prices ! i)"
      using up i by (auto simp: select_price_Inr prices_def)
  qed
  let ?tot = "f64_sum (map2 (\<lambda>price item. f64_mul price (f64_of_int (Qty item))) prices (Items req))"
  have "CreateOrder (\<lambda>_. db) userID req gen now =
      (Inr \<lparr>OrderID = gen 0, Total = ?tot\<rparr>,
       [\<lparr>ord_id = gen 0, ord_user_id = userID, ord_total_amount = ?tot,
         ord_status = ''pending'', ord_created_at = now, ord_updated_at = now\<rparr>],
       item_rows (gen 0) now gen 1 prices (Items req))"
    unfolding CreateOrder_Inr using up len sel
    by (intro exI[of _ prices]) simp
  then show ?thesis by blast
qed

lemma CreateOrder_quiet_fails:
  assumes "up db" and "fst (CreateOrder (\<lambda>_. db) userID req gen now) = Inl e"
  shows "\<exists>item\<in>set (Items req). ProductID item \<notin> p_ID ` set (products db)"
proof (rule ccontr)
  assume "\<not> (\<exists>item\<in>set (Items req). ProductID item \<notin> p_ID ` set (products db))"
  then have "\<forall>item\<in>set (Items req). ProductID item \<in> p_ID ` set (products db)" by blast
  from CreateOrder_quiet_succeeds[OF assms(1) this, of userID gen now] assms(2)
  show False by auto
qed

section \<open>The claims about CreateOrder\<close>









text \<open>
  C9. An item list with zero entries is accepted: when the store executes the three
  statements of the call (begin, the insert of the order, commit), \<^verbatim>\<open>CreateOrder\<close> succeeds
  for every user, persists one order row with total amount zero and status pending and no
  order item row, and returns the generated identifier with a zero total.
\<close>

theorem CreateOrder_no_items:
  assumes "up (w 0)" and "up (w 1)" and "up (w 2)"
  shows "CreateOrder w userID \<lparr>Items = []\<rparr> gen now =
           (Inr \<lparr>OrderID = gen 0, Total = Finite 0\<rparr>,
            [\<lparr>ord_id = gen 0, ord_user_id = userID, ord_total_amount = Finite 0,
              ord_status = ''pending'', ord_created_at = now, ord_updated_at = now\<rparr>],
            [])"
  using assms
  by (simp add: CreateOrder_def BeginTx_def tx_insert_order_def tx_Commit_def next_stmt_def
      Let_def numeral_2_eq_2)

text \<open>The empty order in the shop.\<close>

theorem CreateOrder_no_items_witness:
  "CreateOrder (\<lambda>_. shop) 7 \<lparr>Items = []\<rparr> ids 1000 =
     (Inr \<lparr>OrderID = 100, Total = Finite 0\<rparr>,
      [\<lparr>ord_id = 100, ord_user_id = 7, ord_total_amount = Finite 0,
        ord_status = ''pending'', ord_created_at = 1000, ord_updated_at = 1000\<rparr>],
      [])"
proof -
  have h: "up ((\<lambda>_. shop) k)" for k :: nat by (simp add: shop_def)
  from CreateOrder_no_items[OF h h h, of 7 ids 1000] show ?thesis by (simp add: ids_def)
qed

section \<open>Searching the catalogue\<close>


lemma like_percent:
  "like_match (CHR ''%'' # pat) s \<longleftrightarrow> (\<exists>a b. s = a @ b \<and> like_match pat b)"
proof (induction s)
  case Nil
  then show ?case by simp
next
  case (Cons x s)
  have "like_match (CHR ''%'' # pat) (x # s) \<longleftrightarrow>
          like_match pat (x # s) \<or> like_match (CHR ''%'' # pat) s" by simp
  also have "\<dots> \<longleftrightarrow> like_match pat (x # s) \<or> (\<exists>a b. s = a @ b \<and> like_match pat b)"
    using Cons.IH by simp
  also have "\<dots> \<longleftrightarrow> (\<exists>a b. x # s = a @ b \<and> like_match pat b)"
  proof
    assume "like_match pat (x # s) \<or> (\<exists>a b. s = a @ b \<and> like_match pat b)"
    then show "\<exists>a b. x # s = a @ b \<and> like_match pat b"
    proof
      assume "like_match pat (x # s)"
      then have "x # s = [] @ (x # s) \<and> like_match pat (x # s)" by simp
      then show ?thesis by blast
    next
      assume "\<exists>a b. s = a @ b \<and> like_match pat b"
      then obtain a b where "s = a @ b" "like_match pat b" by blast
      then have "x # s = (x # a) @ b \<and> like_match pat b" by simp
      then show ?thesis by blast
    qed
  next
    assume "\<exists>a b. x # s = a @ b \<and> like_match pat b"
    then obtain a b where ab: "x # s = a @ b" "like_match pat b" by blast
    show "like_match pat (x # s) \<or> (\<exists>a b. s = a @ b \<and> like_match pat b)"
    proof (cases a)
      case Nil
      with ab show ?thesis by simp
    next
      case (Cons y a')
      with ab have "s = a' @ b" by simp
      with ab(2) show ?thesis by blast
    qed
  qed
  finally show ?case .
qed









lemma set_order_by_desc: "set (order_by_desc created xs) = set xs"
  by (simp add: order_by_desc_def)

lemma newest_first_order_by_desc: "newest_first created (order_by_desc created xs)"
proof -
  have "sorted (map (\<lambda>x. - created x) (sort_key (\<lambda>x. - created x) xs))"
    by (rule sorted_sort_key)
  then show ?thesis
    by (simp add: newest_first_def order_by_desc_def sorted_map)
qed

lemma newest_first_page: "newest_first created xs \<Longrightarrow> newest_first created (page flt xs)"
  by (simp add: newest_first_def page_def Let_def)




text \<open>
  C7. The result of \<^verbatim>\<open>GetProducts\<close> is ordered most recently created first. \<open>matching\<close> is
  the result without limit and offset (both zero, the absent value): it holds all the
  products that the WHERE clauses select. A limit is applied only when it is positive
  (the first \<open>Limit\<close> rows), an offset only when it is positive (the rows after the first
  \<open>Offset\<close>); a zero or negative value changes nothing.
\<close>

theorem GetProducts_order_and_page:
  assumes "up db"
  shows "\<exists>matching.
           GetProducts db (flt\<lparr>Limit := 0, Offset := 0\<rparr>) = Inr matching \<and>
           set matching = {p \<in> set (products db). list_all (\<lambda>c. holds c p) (whereClauses flt)} \<and>
           newest_first p_CreatedAt matching \<and>
           GetProducts db flt =
             Inr ((if 0 < Limit flt then take (nat (Limit flt)) else id)
                    ((if 0 < Offset flt then drop (nat (Offset flt)) else id) matching)) \<and>
           (\<exists>rows. GetProducts db flt = Inr rows \<and> newest_first p_CreatedAt rows)"
proof -
  let ?m = "order_by_desc p_CreatedAt
              (filter (\<lambda>p. list_all (\<lambda>c. holds c p) (whereClauses flt)) (products db))"
  have w: "whereClauses (flt\<lparr>Limit := 0, Offset := 0\<rparr>) = whereClauses flt"
    by (simp add: whereClauses_def)
  have "GetProducts db (flt\<lparr>Limit := 0, Offset := 0\<rparr>) = Inr ?m"
    using assms by (simp add: GetProducts_def w page_def)
  moreover have "set ?m = {p \<in> set (products db). list_all (\<lambda>c. holds c p) (whereClauses flt)}"
    by (simp add: set_order_by_desc)
  moreover have "newest_first p_CreatedAt ?m"
    by (rule newest_first_order_by_desc)
  moreover have g: "GetProducts db flt = Inr (page flt ?m)"
    using assms by (simp add: GetProducts_def)
  moreover have "page flt ?m = (if 0 < Limit flt then take (nat (Limit flt)) else id)
                    ((if 0 < Offset flt then drop (nat (Offset flt)) else id) ?m)"
    by (simp add: page_def)
  moreover have "newest_first p_CreatedAt (page flt ?m)"
    by (rule newest_first_page[OF newest_first_order_by_desc])
  ultimately show ?thesis by (intro exI[of _ ?m]) simp
qed

text \<open>The shop's two products, newest first, with and without limit and offset.\<close>

theorem GetProducts_order_and_page_witness:
  "GetProducts shop \<lparr>Query = [], Category = [], Limit = 0, Offset = 0\<rparr> = Inr [wand, salmon] \<and>
   GetProducts shop \<lparr>Query = [], Category = [], Limit = - 1, Offset = - 5\<rparr> = Inr [wand, salmon] \<and>
   GetProducts shop \<lparr>Query = [], Category = [], Limit = 1, Offset = 0\<rparr> = Inr [wand] \<and>
   GetProducts shop \<lparr>Query = [], Category = [], Limit = 0, Offset = 1\<rparr> = Inr [salmon] \<and>
   newest_first p_CreatedAt [wand, salmon]"
proof -
  have h: "up shop" by (simp add: shop_def)
  have e: "GetProducts shop \<lparr>Query = [], Category = [], Limit = 0, Offset = 0\<rparr> = Inr [wand, salmon]"
    by code_simp
  from GetProducts_order_and_page[OF h, of "\<lparr>Query = [], Category = [], Limit = - 1, Offset = - 5\<rparr>"]
  have a: "GetProducts shop \<lparr>Query = [], Category = [], Limit = - 1, Offset = - 5\<rparr> = Inr [wand, salmon]"
    and n: "newest_first p_CreatedAt [wand, salmon]"
    using e by auto
  from GetProducts_order_and_page[OF h, of "\<lparr>Query = [], Category = [], Limit = 1, Offset = 0\<rparr>"]
  have b: "GetProducts shop \<lparr>Query = [], Category = [], Limit = 1, Offset = 0\<rparr> = Inr [wand]"
    using e by auto
  from GetProducts_order_and_page[OF h, of "\<lparr>Query = [], Category = [], Limit = 0, Offset = 1\<rparr>"]
  have c: "GetProducts shop \<lparr>Query = [], Category = [], Limit = 0, Offset = 1\<rparr> = Inr [salmon]"
    using e by auto
  from e a b c n show ?thesis by simp
qed

text \<open>The text made from a search text is matched by its pattern and does not contain it.\<close>

lemma like_matched_text: "like_match (q @ ''%'') (matched_text q)"
proof (induction q rule: matched_text.induct)
  case 1
  then show ?case by simp
next
  case (2 c q)
  show ?case
  proof (cases "c = CHR ''%''")
    case True
    with 2 have "like_match (q @ ''%'') (matched_text q)" by simp
    then have "\<exists>a b. matched_text q = a @ b \<and> like_match (q @ ''%'') b"
      by (intro exI[of _ "[]"] exI[of _ "matched_text q"]) simp
    with True show ?thesis by (simp add: like_percent)
  next
    case np: False
    show ?thesis
    proof (cases "c = CHR ''_''")
      case True
      with 2 np show ?thesis by simp
    next
      case nu: False
      show ?thesis
      proof (cases "c = CHR 0x5C")
        case True
        with 2 np nu show ?thesis by (cases q) simp_all
      next
        case False
        with 2 np nu show ?thesis by simp
      qed
    qed
  qed
qed

lemma length_matched_text: "length (matched_text q) \<le> length q"
proof (induction q rule: matched_text.induct)
  case 1
  then show ?case by simp
next
  case (2 c q)
  show ?case
  proof (cases "c = CHR ''%''")
    case True
    with 2 show ?thesis by simp
  next
    case np: False
    show ?thesis
    proof (cases "c = CHR ''_''")
      case True
      with 2 np show ?thesis by simp
    next
      case nu: False
      show ?thesis
      proof (cases "c = CHR 0x5C")
        case True
        with 2 np nu show ?thesis by (cases q) simp_all
      next
        case False
        with 2 np nu show ?thesis by simp
      qed
    qed
  qed
qed

lemma matched_text_fixed:
  "matched_text q = q \<Longrightarrow> CHR ''%'' \<notin> set q \<and> CHR ''_'' \<notin> set q"
proof (induction q rule: matched_text.induct)
  case 1
  then show ?case by simp
next
  case (2 c q)
  show ?case
  proof (cases "c = CHR ''%''")
    case True
    with "2.prems" have "matched_text q = c # q" by simp
    then have "length (matched_text q) = Suc (length q)" by simp
    with length_matched_text[of q] show ?thesis by simp
  next
    case np: False
    show ?thesis
    proof (cases "c = CHR ''_''")
      case True
      with "2.prems" np show ?thesis by simp
    next
      case nu: False
      show ?thesis
      proof (cases "c = CHR 0x5C")
        case True
        show ?thesis
        proof (cases q)
          case Nil
          with "2.prems" True show ?thesis by simp
        next
          case (Cons e q')
          with "2.prems" True have "e # matched_text q' = c # e # q'" by simp
          then have "length (matched_text q') = Suc (length q')" by simp
          with length_matched_text[of q'] show ?thesis by simp
        qed
      next
        case False
        with "2.prems" np nu have "matched_text q = q" by simp
        with "2.IH"(4)[OF np nu False] np nu show ?thesis by simp
      qed
    qed
  qed
qed

lemma not_sublist_matched_text:
  assumes "CHR ''%'' \<in> set q \<or> CHR ''_'' \<in> set q"
  shows "\<not> sublist q (matched_text q)"
proof
  assume "sublist q (matched_text q)"
  then obtain ps ss where eq: "matched_text q = ps @ q @ ss" by (auto simp: sublist_def)
  then have "length (matched_text q) = length ps + length q + length ss" by simp
  with length_matched_text[of q] have "ps = []" "ss = []" by simp_all
  with eq have "matched_text q = q" by simp
  from matched_text_fixed[OF this] assms show False by simp
qed

lemma to_lower_idem: "to_lower (to_lower c) = to_lower c"
proof (cases "65 \<le> (of_char c :: nat) \<and> (of_char c :: nat) \<le> 90")
  case False
  then show ?thesis by (auto simp: to_lower_def Let_def)
next
  case True
  then have l: "to_lower c = char_of (of_char c + 32 :: nat)"
    by (simp add: to_lower_def Let_def)
  have "(of_char (to_lower c) :: nat) = (of_char c + 32) mod 256"
    unfolding l by simp
  with True have "(of_char (to_lower c) :: nat) = of_char c + 32" by simp
  with True show ?thesis by (simp add: to_lower_def[of "to_lower c"] Let_def)
qed

lemma set_matched_text: "set (matched_text q) \<subseteq> set q \<union> {CHR ''x'', CHR ''%''}"
proof (induction q rule: matched_text.induct)
  case 1
  then show ?case by simp
next
  case (2 c q)
  show ?case
  proof (cases "c = CHR ''%''")
    case True
    with 2 show ?thesis by auto
  next
    case np: False
    show ?thesis
    proof (cases "c = CHR ''_''")
      case True
      with 2 np show ?thesis by auto
    next
      case nu: False
      show ?thesis
      proof (cases "c = CHR 0x5C")
        case True
        show ?thesis
        proof (cases q)
          case Nil
          with True show ?thesis by simp
        next
          case (Cons e q')
          from "2.IH"(3)[OF np nu True Cons] have "set (matched_text q') \<subseteq> set q' \<union> {CHR ''x'', CHR ''%''}" .
          moreover have "matched_text (c # q) = e # matched_text q'"
            using True Cons by simp
          ultimately show ?thesis using Cons by auto
        qed
      next
        case False
        from "2.IH"(4)[OF np nu False] have "set (matched_text q) \<subseteq> set q \<union> {CHR ''x'', CHR ''%''}" .
        moreover have "matched_text (c # q) = c # matched_text q"
          using np nu False by simp
        ultimately show ?thesis by auto
      qed
    qed
  qed
qed

lemma to_lower_matched_text:
  assumes "\<forall>c\<in>set q. to_lower c = c"
  shows "map to_lower (matched_text q) = matched_text q"
proof -
  have x: "to_lower CHR ''x'' = CHR ''x''" "to_lower CHR ''%'' = CHR ''%''"
    by (simp_all add: to_lower_def)
  have "to_lower c = c" if "c \<in> set (matched_text q)" for c
    using that set_matched_text[of q] assms x by auto
  then show ?thesis by (simp add: map_idI)
qed


text \<open>
  C10. Every search text that contains \<^verbatim>\<open>%\<close> or \<^verbatim>\<open>_\<close> is such an input: it goes unescaped
  into the pattern \<^verbatim>\<open>%text%\<close> of \<^verbatim>\<open>ILIKE\<close>, where these characters are wildcards, and there
  is a catalogue in which \<^verbatim>\<open>GetProducts\<close> returns a product whose title and description
  do not contain the search text.
\<close>

theorem GetProducts_wildcards:
  assumes "CHR ''%'' \<in> set q \<or> CHR ''_'' \<in> set q"
  shows "\<exists>title. GetProducts (one_product title) \<lparr>Query = q, Category = [], Limit = 0, Offset = 0\<rparr> =
                   Inr (products (one_product title)) \<and>
                 map p_Title (products (one_product title)) = [title] \<and>
                 map p_Description (products (one_product title)) = [title] \<and>
                 \<not> contains_ci title q"
proof -
  define q' where "q' = map to_lower q"
  define title where "title = matched_text q'"
  have low: "\<forall>c\<in>set q'. to_lower c = c"
    by (auto simp: q'_def to_lower_idem)
  have t: "map to_lower title = title"
    unfolding title_def by (rule to_lower_matched_text[OF low])
  have "\<exists>a b. title = a @ b \<and> like_match (q' @ ''%'') b"
    unfolding title_def by (intro exI[of _ "[]"] exI[of _ "matched_text q'"]) (simp add: like_matched_text)
  then have "like_match (CHR ''%'' # q' @ ''%'') title"
    by (simp add: like_percent)
  moreover have "to_lower CHR ''%'' = CHR ''%''" by (simp add: to_lower_def)
  ultimately have m: "ilike title (''%'' @ q @ ''%'')"
    by (simp add: ilike_def t q'_def)
  have ne: "q \<noteq> []" using assms by auto
  have lp: "to_lower CHR ''%'' = CHR ''%''" "to_lower CHR ''_'' = CHR ''_''"
    by (simp_all add: to_lower_def)
  have "CHR ''%'' \<in> set q' \<or> CHR ''_'' \<in> set q'"
  proof (rule disjE[OF assms])
    assume "CHR ''%'' \<in> set q"
    then have "to_lower CHR ''%'' \<in> set q'" unfolding q'_def by simp
    then show ?thesis by (simp add: lp)
  next
    assume "CHR ''_'' \<in> set q"
    then have "to_lower CHR ''_'' \<in> set q'" unfolding q'_def by simp
    then show ?thesis by (simp add: lp)
  qed
  from not_sublist_matched_text[OF this] have n: "\<not> contains_ci title q"
    by (simp add: contains_ci_def t q'_def[symmetric] title_def[symmetric])
  have "GetProducts (one_product title) \<lparr>Query = q, Category = [], Limit = 0, Offset = 0\<rparr> =
          Inr (products (one_product title))"
    using m ne
    by (simp add: GetProducts_def one_product_def whereClauses_def page_def order_by_desc_def)
  with n show ?thesis
    by (intro exI[of _ title]) (simp add: one_product_def)
qed

text \<open>
  In the shop, \<^verbatim>\<open>w_nd\<close> finds Feather Wand and \<^verbatim>\<open>%\<close> finds every product, though no title
  and no description contains either text.
\<close>

theorem GetProducts_wildcards_witness:
  "(\<exists>title. GetProducts (one_product title) \<lparr>Query = ''w_nd'', Category = [], Limit = 0, Offset = 0\<rparr> =
             Inr (products (one_product title)) \<and>
           \<not> contains_ci title ''w_nd'') \<and>
   GetProducts shop \<lparr>Query = ''w_nd'', Category = [], Limit = 0, Offset = 0\<rparr> = Inr [wand] \<and>
   \<not> contains_ci (p_Title wand) ''w_nd'' \<and> \<not> contains_ci (p_Description wand) ''w_nd'' \<and>
   GetProducts shop \<lparr>Query = ''%'', Category = [], Limit = 0, Offset = 0\<rparr> = Inr [wand, salmon] \<and>
   \<not> contains_ci (p_Title wand) ''%'' \<and> \<not> contains_ci (p_Description wand) ''%'' \<and>
   \<not> contains_ci (p_Title salmon) ''%'' \<and> \<not> contains_ci (p_Description salmon) ''%''"
proof -
  have h: "CHR ''%'' \<in> set ''w_nd'' \<or> CHR ''_'' \<in> set ''w_nd''" by simp
  from GetProducts_wildcards[OF h]
  have a: "\<exists>title. GetProducts (one_product title) \<lparr>Query = ''w_nd'', Category = [], Limit = 0, Offset = 0\<rparr> =
             Inr (products (one_product title)) \<and> \<not> contains_ci title ''w_nd''"
    by blast
  have b: "GetProducts shop \<lparr>Query = ''w_nd'', Category = [], Limit = 0, Offset = 0\<rparr> = Inr [wand] \<and>
   \<not> contains_ci (p_Title wand) ''w_nd'' \<and> \<not> contains_ci (p_Description wand) ''w_nd'' \<and>
   GetProducts shop \<lparr>Query = ''%'', Category = [], Limit = 0, Offset = 0\<rparr> = Inr [wand, salmon] \<and>
   \<not> contains_ci (p_Title wand) ''%'' \<and> \<not> contains_ci (p_Description wand) ''%'' \<and>
   \<not> contains_ci (p_Title salmon) ''%'' \<and> \<not> contains_ci (p_Description salmon) ''%''"
    by code_simp
  from a b show ?thesis by (rule conjI)
qed

section \<open>GetProduct\<close>

text \<open>
  \<^verbatim>\<open>GetProduct\<close> has one error only. It returns it when the product is unknown and also
  when the store fails, so the handler's branch for other errors is never taken.
\<close>

lemma select_product_Inr:
  "select_product db pid = Inr p \<Longrightarrow> up db \<and> p \<in> set (products db) \<and> p_ID p = pid"
proof -
  assume a: "select_product db pid = Inr p"
  then have u: "up db" by (auto simp: select_product_def split: if_splits)
  with a obtain ps where "filter (\<lambda>p. p_ID p = pid) (products db) = p # ps"
    by (auto simp: select_product_def split: list.splits)
  then have "p \<in> set (filter (\<lambda>p. p_ID p = pid) (products db))" by simp
  with u show ?thesis by simp
qed

lemma GetProduct_error: "GetProduct db pid = Inl e \<Longrightarrow> e = ErrProductNotFound"
  by (auto simp: GetProduct_def split: sum.splits)

lemma GetProduct_NotFound_iff:
  "GetProduct db pid = Inl ErrProductNotFound \<longleftrightarrow> \<not> up db \<or> pid \<notin> p_ID ` set (products db)"
proof (cases "select_product db pid")
  case (Inl e)
  then have "\<not> up db \<or> filter (\<lambda>p. p_ID p = pid) (products db) = []"
    by (auto simp: select_product_def split: if_splits list.splits)
  then have "\<not> up db \<or> pid \<notin> p_ID ` set (products db)"
    by (auto simp: filter_empty_conv)
  with Inl show ?thesis by (simp add: GetProduct_def)
next
  case (Inr p)
  from select_product_Inr[OF this] Inr show ?thesis
    by (auto simp: GetProduct_def)
qed

lemma GetProduct_status_never_500: "GetProduct_status db pid \<noteq> 500"
  by (auto simp: GetProduct_status_def dest: GetProduct_error split: sum.splits)

text \<open>
  C8 says that \<^verbatim>\<open>GetProduct\<close> fails with NotFound exactly when no product has the
  identifier, and that any other failure reaches the caller as something else. The code
  departs from it. Product 1 exists, and \<^verbatim>\<open>GetProduct\<close> returns it when the store is
  reachable; when the store does not answer, the lookup fails with a store error, yet
  \<^verbatim>\<open>GetProduct\<close> returns the product-not-found error and the handler answers 404.
\<close>

theorem GetProduct_store_failure:
  "GetProduct shop 1 = Inr salmon \<and>
   select_product (shop\<lparr>up := False\<rparr>) 1 = Inl ErrStore \<and>
   GetProduct (shop\<lparr>up := False\<rparr>) 1 = Inl ErrProductNotFound \<and>
   GetProduct_status (shop\<lparr>up := False\<rparr>) 1 = 404"
  by code_simp

section \<open>GetUserOrders\<close>












section \<open>The arithmetic of CreateOrder\<close>

lemma pow2_powi: "pow2 e = 2 powi e"
  by (simp add: pow2_def power_int_def field_simps)

lemma pow2_pos: "0 < pow2 e"
  by (simp add: pow2_powi)

lemma pow2_add: "pow2 (a + b) = pow2 a * pow2 b"
  by (simp add: pow2_powi power_int_add)

lemma pow2_mono: "a \<le> b \<Longrightarrow> pow2 a \<le> pow2 b"
  by (simp add: pow2_powi power_int_increasing)

lemma ilog2_upper:
  assumes "0 < a"
  shows "a < pow2 (ilog2 a + 1)"
proof -
  obtain p q where pq: "quotient_of a = (p, q)" by (cases "quotient_of a")
  then have q: "0 < q" and a: "a = of_int p / of_int q"
    using quotient_of_denom_pos quotient_of_div by blast+
  with assms have p: "0 < p"
    by (simp add: zero_less_divide_iff)
  let ?d = "bitlen p - bitlen q"
  show ?thesis
  proof (cases "pow2 ?d \<le> a")
    case False
    then show ?thesis by (simp add: ilog2_def pq Let_def)
  next
    case True
    have bp: "p < 2 ^ nat (bitlen p)" using bitlen_bounds[OF p] by simp
    have bq: "2 ^ nat (bitlen q - 1) \<le> q" using bitlen_bounds[OF q] by simp
    have lp: "0 \<le> bitlen p" by (simp add: bitlen_nonneg)
    have lq: "1 \<le> bitlen q" using q by (simp add: bitlen_def floorlog_def)
    have "(of_int p :: rat) < of_int (2 ^ nat (bitlen p))" using bp by (simp only: of_int_less_iff)
    then have 1: "(of_int p :: rat) < pow2 (bitlen p)"
      using lp by (simp add: pow2_def)
    have "(of_int (2 ^ nat (bitlen q - 1)) :: rat) \<le> of_int q" using bq by (simp only: of_int_le_iff)
    then have 2: "pow2 (bitlen q - 1) \<le> of_int q"
      using lq by (simp add: pow2_def)
    have "a * pow2 (bitlen q - 1) \<le> a * of_int q"
      using 2 assms by (simp add: mult_left_mono)
    also have "\<dots> = of_int p" using a q by simp
    also have "\<dots> < pow2 (bitlen p)" by (rule 1)
    also have "\<dots> = pow2 (?d + 1) * pow2 (bitlen q - 1)"
      by (simp add: pow2_add[symmetric])
    finally have "a < pow2 (?d + 1)"
      using pow2_pos[of "bitlen q - 1"] by simp
    with True show ?thesis by (simp add: ilog2_def pq Let_def)
  qed
qed

lemma round_half_even_bounds:
  assumes "0 \<le> x" and "x < of_int N"
  shows "0 \<le> round_half_even x \<and> round_half_even x \<le> N"
proof -
  have f0: "0 \<le> \<lfloor>x\<rfloor>" using assms(1) by simp
  have f1: "\<lfloor>x\<rfloor> < N" using assms(2) by (simp add: floor_less_iff)
  show ?thesis
    using f0 f1 by (auto simp: round_half_even_def Let_def)
qed


lemma binary64_0: "binary64 0"
  unfolding binary64_def by (intro exI[of _ 0]) simp

lemma f64_round_is_float64: "is_float64 (f64_round r)"
proof (cases "r = 0")
  case True
  then show ?thesis by (simp add: f64_round_def binary64_0)
next
  case False
  define a where "a = \<bar>r\<bar>"
  define e where "e = max (ilog2 a) (- 1022)"
  define u where "u = pow2 (e - 52)"
  define n where "n = round_half_even (a / u)"
  define e' where "e' = (if n = 2 ^ 53 then e + 1 else e)"
  have apos: "0 < a" using False by (simp add: a_def)
  have upos: "0 < u" by (simp add: u_def pow2_pos)
  have "a < pow2 (ilog2 a + 1)" by (rule ilog2_upper[OF apos])
  also have "\<dots> \<le> pow2 (e + 1)" by (rule pow2_mono) (simp add: e_def)
  also have "\<dots> = pow2 53 * u"
    using pow2_add[of 53 "e - 52"] by (simp add: u_def add.commute)
  finally have "a / u < pow2 53" using upos by (simp add: pos_divide_less_eq)
  then have lt: "a / u < of_int (2 ^ 53)" by (simp add: pow2_def)
  have "0 \<le> a / u" using apos upos by simp
  from round_half_even_bounds[OF this lt] have n: "0 \<le> n" "n \<le> 2 ^ 53"
    by (simp_all add: n_def)
  have elow: "- 1022 \<le> e" by (simp add: e_def)
  have unf: "f64_round r =
      (if 1023 < e' then (if 0 < r then PosInf else NegInf) else Finite (sgn r * (of_int n * u)))"
    by (simp only: f64_round_def Let_def a_def e_def u_def n_def e'_def False if_False)
  show ?thesis
  proof (cases "1023 < e'")
    case True
    then show ?thesis by (simp add: unf)
  next
    case fin: False
    define s :: int where "s = (if 0 < r then 1 else - 1)"
    have s: "sgn r = of_int s" "\<bar>s\<bar> = 1" using False by (auto simp: s_def sgn_if)
    have "binary64 (sgn r * (of_int n * u))"
    proof (cases "n = 2 ^ 53")
      case True
      with fin have e: "e \<le> 1022" by (simp add: e'_def)
      have "pow2 (e - 51) = 2 * u"
        using pow2_add[of 1 "e - 52"] by (simp add: u_def pow2_def)
      then have "sgn r * (of_int n * u) = of_int (s * 2 ^ 52) * pow2 (e - 51)"
        using True s(1) by simp
      moreover have "\<bar>s * 2 ^ 52\<bar> < (2::int) ^ 53" using s(2) by (simp add: abs_mult)
      moreover have "- 1074 \<le> e - 51" "e - 51 \<le> 971" using e elow by simp_all
      ultimately show ?thesis unfolding binary64_def by blast
    next
      case False
      with fin have e: "e \<le> 1023" by (simp add: e'_def)
      have "sgn r * (of_int n * u) = of_int (s * n) * pow2 (e - 52)"
        using s(1) by (simp add: u_def)
      moreover have "\<bar>s * n\<bar> < (2::int) ^ 53" using s(2) n False by (simp add: abs_mult)
      moreover have "- 1074 \<le> e - 52" "e - 52 \<le> 971" using e elow by simp_all
      ultimately show ?thesis unfolding binary64_def by blast
    qed
    with fin show ?thesis by (simp add: unf)
  qed
qed


lemma f64_mul_is_float64: "is_float64 (f64_mul x y)"
  by (cases x; cases y) (simp_all add: f64_round_is_float64)

















end
